theory Spec2Isabelle
  imports Main "HOL-Library.Sublist"
begin

section \<open>JavaScript values\<close>

text \<open>
  The values that reach the code of \<^verbatim>\<open>static/js/main.js\<close> are JSON values (request payloads,
  parsed response bodies) and \<^verbatim>\<open>undefined\<close> (an absent property, an omitted argument).
  A JSON value is a \<open>json\<close>; a JavaScript value is a \<open>json option\<close>, \<open>None\<close> being
  \<^verbatim>\<open>undefined\<close>.  Numbers are the integer-valued ones (\<open>JNum n\<close> with \<open>n\<close> a safe integer,
  \<open>\<bar>n\<bar> \<le> 2^53 - 1\<close>), on which the conversions below are exact; numbers with a fraction are IEEE
  doubles and stay outside the embedding.  An object is the list of its own properties in
  property order.
\<close>

datatype json =
    JNull
  | JBool bool
  | JNum int
  | JStr string
  | JArr "json list"
  | JObj "(string \<times> json) list"

type_synonym jsvalue = "json option"

text \<open>\<^verbatim>\<open>ToBoolean\<close>: what \<^verbatim>\<open>if (v)\<close> and \<^verbatim>\<open>v || w\<close> test.\<close>

fun truthy :: "jsvalue \<Rightarrow> bool" where
  "truthy None = False"
| "truthy (Some JNull) = False"
| "truthy (Some (JBool b)) = b"
| "truthy (Some (JNum n)) = (n \<noteq> 0)"
| "truthy (Some (JStr s)) = (s \<noteq> [])"
| "truthy (Some (JArr xs)) = True"
| "truthy (Some (JObj kvs)) = True"

text \<open>Decimal digits of a natural number, most significant first.\<close>

definition digit_char :: "nat \<Rightarrow> char" where
  "digit_char d = ''0123456789'' ! d"

function decimal :: "nat \<Rightarrow> string" where
  "decimal n = (if n < 10 then [digit_char n]
                else decimal (n div 10) @ [digit_char (n mod 10)])"
  by pat_completeness auto
termination
  by (relation "measure (\<lambda>n. n)") auto

declare decimal.simps [simp del]

text \<open>\<^verbatim>\<open>Number::toString\<close> on an integer-valued number.\<close>

definition Number_toString :: "int \<Rightarrow> string" where
  "Number_toString n = (if n < 0 then CHR ''-'' # decimal (nat (- n)) else decimal (nat n))"

text \<open>\<^verbatim>\<open>Array.prototype.join\<close> on strings already converted.\<close>

fun join :: "string \<Rightarrow> string list \<Rightarrow> string" where
  "join sep [] = []"
| "join sep [s] = s"
| "join sep (s # t # ts) = s @ sep @ join sep (t # ts)"

text \<open>
  \<^verbatim>\<open>ToString\<close> on a JSON value: an array is its elements joined by commas, \<^verbatim>\<open>null\<close>
  elements as the empty string; a plain object is \<^verbatim>\<open>[object Object]\<close>.
\<close>

fun ToString :: "json \<Rightarrow> string" where
  "ToString JNull = ''null''"
| "ToString (JBool b) = (if b then ''true'' else ''false'')"
| "ToString (JNum n) = Number_toString n"
| "ToString (JStr s) = s"
| "ToString (JArr xs) = join '','' (map (\<lambda>x. if x = JNull then [] else ToString x) xs)"
| "ToString (JObj kvs) = ''[object Object]''"

section \<open>Errors\<close>

text \<open>
  A thrown value is an error object with its \<^verbatim>\<open>name\<close> and \<^verbatim>\<open>message\<close>.  \<^verbatim>\<open>new Error(v)\<close>
  converts its argument to a string.  Reading a property of \<^verbatim>\<open>null\<close> or \<^verbatim>\<open>undefined\<close>, and
  calling a method the receiver does not have, throw a \<^verbatim>\<open>TypeError\<close> (the message text is the
  one V8 prints).
\<close>

datatype exn = Exn (name: string) (message: string)

definition new_Error :: "json \<Rightarrow> exn" where
  "new_Error v = Exn ''Error'' (ToString v)"

definition TypeError_read :: "string \<Rightarrow> string \<Rightarrow> exn" where
  "TypeError_read what prop =
     Exn ''TypeError'' (''Cannot read properties of '' @ what @ '' (reading '' @ [CHR 0x27] @ prop @ [CHR 0x27] @ '')'')"

definition TypeError_not_a_function :: "string \<Rightarrow> exn" where
  "TypeError_not_a_function what = Exn ''TypeError'' (what @ '' is not a function'')"

text \<open>
  \<^verbatim>\<open>v.prop\<close> for a property name that no prototype defines (\<^verbatim>\<open>error\<close>, \<^verbatim>\<open>fraud_rate\<close>, ...):
  a \<^verbatim>\<open>TypeError\<close> on \<^verbatim>\<open>null\<close> and \<^verbatim>\<open>undefined\<close>, the own property of an object,
  \<^verbatim>\<open>undefined\<close> on everything else.
\<close>

fun get_prop :: "jsvalue \<Rightarrow> string \<Rightarrow> exn + jsvalue" where
  "get_prop None p = Inl (TypeError_read ''undefined'' p)"
| "get_prop (Some JNull) p = Inl (TypeError_read ''null'' p)"
| "get_prop (Some (JObj kvs)) p = Inr (map_of kvs p)"
| "get_prop (Some v) p = Inr None"

section \<open>The page\<close>

text \<open>
  The state the code reads and writes: the virtual clock in milliseconds, the text of the
  elements that have an id, the toast container and the toasts in it, the console, the pending
  one-shot timers (\<^verbatim>\<open>setTimeout\<close>), the recurring timer of the stats poll (\<^verbatim>\<open>setInterval\<close>, its
  period and next due time), the requests handed to \<^verbatim>\<open>fetch\<close> with the time of the call, and
  the numbers of those still in flight.
\<close>

record toast =
  node :: nat
  className :: string
  innerHTML :: string

datatype task = FadeOut nat | Remove nat

record options =
  "method" :: string
  headers :: "(string \<times> string) list"
  body :: "string option"

record page =
  now :: nat
  textContent :: "string \<rightharpoonup> string"
  toast_container :: bool
  toasts :: "toast list"
  next_node :: nat
  console :: "(string \<times> exn) list"
  timeouts :: "(nat \<times> task) list"
  interval :: "(nat \<times> nat) option"
  requests :: "(nat \<times> string \<times> options) list"
  inflight :: "nat list"

section \<open>Toast notifications\<close>

text \<open>
  \<^verbatim>\<open>icons[type] || icons.info\<close>, for a type that names no property of \<^verbatim>\<open>Object.prototype\<close>.
\<close>

definition getToastIcon :: "string \<Rightarrow> string" where
  "getToastIcon type =
     (case map_of [(''success'', ''check-circle''), (''error'', ''exclamation-circle''),
                   (''warning'', ''exclamation-triangle''), (''info'', ''info-circle'')] type of
        Some icon \<Rightarrow> icon
      | None \<Rightarrow> ''info-circle'')"

definition createToastContainer :: "page \<Rightarrow> page" where
  "createToastContainer w = w\<lparr>toast_container := True\<rparr>"

text \<open>The template literal assigned to \<^verbatim>\<open>toast.innerHTML\<close>, line by line.\<close>

definition toast_html :: "string \<Rightarrow> string \<Rightarrow> string" where
  \<open>toast_html icon msg = concat (map (\<lambda>l. l @ [CHR 0x0A])
     ['''',
      ''        <div class="toast-content">'',
      ''            <i class="bi bi-'' @ icon @ ''"></i>'',
      ''            <span>'' @ msg @ ''</span>'',
      ''        </div>'',
      ''        <button class="toast-close" onclick="this.parentElement.remove()">'',
      ''            <i class="bi bi-x"></i>'',
      ''        </button>'']) @ ''    ''\<close>

text \<open>
  \<^verbatim>\<open>showToast(message, type = 'info')\<close>: the container is created when the page has none, the
  toast is appended to it, and a 5000 ms timer is set whose callback fades the toast out and
  sets the 300 ms timer that removes it.
\<close>

definition showToast :: "string \<Rightarrow> string option \<Rightarrow> page \<Rightarrow> page" where
  "showToast msg type_arg w =
     (let type = (case type_arg of None \<Rightarrow> ''info'' | Some t \<Rightarrow> t);
          w1 = (if toast_container w then w else createToastContainer w);
          n = next_node w1;
          toast = \<lparr>node = n, className = ''toast toast-'' @ type @ '' show'',
                   innerHTML = toast_html (getToastIcon type) msg\<rparr>
      in w1\<lparr>toasts := toasts w1 @ [toast], next_node := Suc n,
             timeouts := timeouts w1 @ [(now w1 + 5000, FadeOut n)]\<rparr>)"

section \<open>The API helper\<close>

text \<open>
  \<^verbatim>\<open>JSON.stringify\<close> on a JSON value.  A string is quoted; the quote and the backslash are
  escaped, a control character is written by its short escape or as \<^verbatim>\<open>\u00XX\<close>.
\<close>

definition hex_char :: "nat \<Rightarrow> char" where
  "hex_char d = ''0123456789abcdef'' ! d"

definition quote_char :: "char \<Rightarrow> string" where
  "quote_char c =
     (if c = CHR 0x22 then [CHR 0x5C, CHR 0x22]
      else if c = CHR 0x5C then [CHR 0x5C, CHR 0x5C]
      else if c = CHR 0x08 then [CHR 0x5C, CHR ''b'']
      else if c = CHR 0x0C then [CHR 0x5C, CHR ''f'']
      else if c = CHR 0x0A then [CHR 0x5C, CHR ''n'']
      else if c = CHR 0x0D then [CHR 0x5C, CHR ''r'']
      else if c = CHR 0x09 then [CHR 0x5C, CHR ''t'']
      else if (of_char c :: nat) < 32 then
        [CHR 0x5C, CHR ''u'', CHR ''0'', CHR ''0'',
         hex_char ((of_char c :: nat) div 16), hex_char ((of_char c :: nat) mod 16)]
      else [c])"

definition QuoteJSONString :: "string \<Rightarrow> string" where
  "QuoteJSONString s = [CHR 0x22] @ concat (map quote_char s) @ [CHR 0x22]"

fun JSON_stringify :: "json \<Rightarrow> string" where
  "JSON_stringify JNull = ''null''"
| "JSON_stringify (JBool b) = (if b then ''true'' else ''false'')"
| "JSON_stringify (JNum n) = Number_toString n"
| "JSON_stringify (JStr s) = QuoteJSONString s"
| "JSON_stringify (JArr xs) = ''['' @ join '','' (map JSON_stringify xs) @ '']''"
| "JSON_stringify (JObj kvs) =
     ''{'' @ join '','' (map (\<lambda>kv. QuoteJSONString (fst kv) @ '':'' @ JSON_stringify (snd kv)) kvs) @ ''}''"

text \<open>
  What \<^verbatim>\<open>fetch\<close> answers: the promise is rejected, or it resolves to a response with its status
  and with what \<^verbatim>\<open>await response.json()\<close> gives (a rejection when the body is not valid JSON).
  \<^verbatim>\<open>response.ok\<close> is a status from 200 to 299.
\<close>

record response =
  status :: nat
  json_body :: "exn + json"

definition ok :: "response \<Rightarrow> bool" where
  "ok r = (200 \<le> status r \<and> status r \<le> 299)"

datatype fetch_outcome = Rejected exn | Resolved response

text \<open>\<^verbatim>\<open>a || b\<close>, and \<^verbatim>\<open>new Error(v)\<close> on any value.\<close>

definition or_else :: "jsvalue \<Rightarrow> jsvalue \<Rightarrow> jsvalue" where
  "or_else a b = (if truthy a then a else b)"

definition new_Error_of :: "jsvalue \<Rightarrow> exn" where
  "new_Error_of v = (case v of None \<Rightarrow> Exn ''Error'' [] | Some x \<Rightarrow> new_Error x)"

text \<open>
  The start of \<^verbatim>\<open>apiRequest(url, method = 'GET', data = null)\<close>: the options handed to
  \<^verbatim>\<open>fetch\<close>.  An omitted argument (\<open>None\<close>) takes its default.
\<close>

definition apiRequest_options :: "string option \<Rightarrow> jsvalue \<Rightarrow> options" where
  "apiRequest_options method_arg data_arg =
     (let data = (case data_arg of None \<Rightarrow> JNull | Some d \<Rightarrow> d);
          options = \<lparr>method = (case method_arg of None \<Rightarrow> ''GET'' | Some m \<Rightarrow> m),
                     headers = [(''Content-Type'', ''application/json'')],
                     body = None\<rparr>
      in if truthy (Some data) then options\<lparr>body := Some (JSON_stringify data)\<rparr> else options)"

text \<open>The \<^verbatim>\<open>try\<close> block once \<^verbatim>\<open>fetch\<close> has settled, and the \<^verbatim>\<open>catch\<close> block.\<close>

definition apiRequest_try :: "fetch_outcome \<Rightarrow> exn + jsvalue" where
  "apiRequest_try outcome =
     (case outcome of
        Rejected e \<Rightarrow> Inl e
      | Resolved response \<Rightarrow>
          (case json_body response of
             Inl e \<Rightarrow> Inl e
           | Inr result \<Rightarrow>
               if \<not> ok response then
                 (case get_prop (Some result) ''error'' of
                    Inl e \<Rightarrow> Inl e
                  | Inr err \<Rightarrow> Inl (new_Error_of (or_else err (Some (JStr ''API request failed'')))))
               else Inr (Some result)))"

definition apiRequest_catch :: "exn \<Rightarrow> page \<Rightarrow> page \<times> (exn + jsvalue)" where
  "apiRequest_catch error w =
     (showToast (message error) (Some ''error'') (w\<lparr>console := console w @ [(''API Error:'', error)]\<rparr>),
      Inl error)"

definition apiRequest_settle :: "fetch_outcome \<Rightarrow> page \<Rightarrow> page \<times> (exn + jsvalue)" where
  "apiRequest_settle outcome w =
     (case apiRequest_try outcome of
        Inl error \<Rightarrow> apiRequest_catch error w
      | Inr result \<Rightarrow> (w, Inr result))"

text \<open>The call to \<^verbatim>\<open>fetch\<close>: the request goes out at the current time.\<close>

definition apiRequest_call :: "string \<Rightarrow> string option \<Rightarrow> jsvalue \<Rightarrow> page \<Rightarrow> page" where
  "apiRequest_call url method_arg data_arg w =
     w\<lparr>requests := requests w @ [(now w, url, apiRequest_options method_arg data_arg)]\<rparr>"

text \<open>
  \<^verbatim>\<open>apiRequest\<close> from call to return, when \<^verbatim>\<open>fetch\<close> settles with \<open>outcome\<close>: the page
  afterwards and the settlement of the promise returned (\<open>Inl\<close> a rejection).
\<close>

definition apiRequest ::
  "fetch_outcome \<Rightarrow> string \<Rightarrow> string option \<Rightarrow> jsvalue \<Rightarrow> page \<Rightarrow> page \<times> (exn + jsvalue)" where
  "apiRequest outcome url method_arg data_arg w =
     apiRequest_settle outcome (apiRequest_call url method_arg data_arg w)"

section \<open>Formatting\<close>

text \<open>
  \<^verbatim>\<open>ToNumber\<close>, as the number formatter applies it to its argument.  \<^verbatim>\<open>undefined\<close> is
  \<^verbatim>\<open>NaN\<close>, \<^verbatim>\<open>null\<close> is 0, an array or object goes through its string.  A string is trimmed;
  the empty string is 0, an optionally signed run of digits is that integer, anything that is
  no numeral is \<^verbatim>\<open>NaN\<close>.  (A string spelling a numeral with a fraction, an exponent or a radix
  prefix, or \<^verbatim>\<open>Infinity\<close>, denotes a number outside the integer-valued ones and is not
  covered.)
\<close>

datatype number = NaN | Num int

definition StrWhiteSpaceChar :: "char \<Rightarrow> bool" where
  "StrWhiteSpaceChar c = (c \<in> set [CHR '' '', CHR 0x09, CHR 0x0A, CHR 0x0B, CHR 0x0C, CHR 0x0D, CHR 0xA0])"

definition trim :: "string \<Rightarrow> string" where
  "trim s = rev (dropWhile StrWhiteSpaceChar (rev (dropWhile StrWhiteSpaceChar s)))"

definition digit_val :: "char \<Rightarrow> nat" where
  "digit_val c = of_char c - 48"

definition is_digit :: "char \<Rightarrow> bool" where
  "is_digit c = (c \<in> set ''0123456789'')"

definition digits_val :: "string \<Rightarrow> nat" where
  "digits_val ds = foldl (\<lambda>acc c. 10 * acc + digit_val c) 0 ds"

definition StringToNumber :: "string \<Rightarrow> number" where
  "StringToNumber s =
     (case trim s of
        [] \<Rightarrow> Num 0
      | c # cs \<Rightarrow>
          if c = CHR ''-'' \<and> cs \<noteq> [] \<and> list_all is_digit cs then Num (- int (digits_val cs))
          else if c = CHR ''+'' \<and> cs \<noteq> [] \<and> list_all is_digit cs then Num (int (digits_val cs))
          else if list_all is_digit (c # cs) then Num (int (digits_val (c # cs)))
          else NaN)"

fun ToNumber :: "jsvalue \<Rightarrow> number" where
  "ToNumber None = NaN"
| "ToNumber (Some JNull) = Num 0"
| "ToNumber (Some (JBool b)) = Num (if b then 1 else 0)"
| "ToNumber (Some (JNum n)) = Num n"
| "ToNumber (Some (JStr s)) = StringToNumber s"
| "ToNumber (Some v) = StringToNumber (ToString v)"

text \<open>Digits in groups of three, from the right, with commas.\<close>

function group3 :: "string \<Rightarrow> string" where
  "group3 ds = (if length ds \<le> 3 then ds
                else group3 (take (length ds - 3) ds) @ '','' @ drop (length ds - 3) ds)"
  by pat_completeness auto
termination
  by (relation "measure length") auto

declare group3.simps [simp del]

text \<open>
  \<^verbatim>\<open>new Intl.NumberFormat('en-US', {style: 'currency', currency: 'USD'}).format\<close> on a number:
  the dollar sign, grouped digits and two decimals.
\<close>

fun NumberFormat_USD :: "number \<Rightarrow> string" where
  "NumberFormat_USD NaN = ''$NaN''"
| "NumberFormat_USD (Num n) =
     (if n < 0 then ''-'' else []) @ ''$'' @ group3 (decimal (nat \<bar>n\<bar>)) @ ''.00''"

definition formatCurrency :: "jsvalue \<Rightarrow> string" where
  "formatCurrency amount = NumberFormat_USD (ToNumber amount)"

text \<open>
  \<^verbatim>\<open>v.toFixed(2)\<close>: the property read throws on \<^verbatim>\<open>undefined\<close> and \<^verbatim>\<open>null\<close>, only a number
  has the method, and on an integer-valued number it appends the two decimals.
\<close>

fun toFixed2 :: "jsvalue \<Rightarrow> exn + string" where
  "toFixed2 None = Inl (TypeError_read ''undefined'' ''toFixed'')"
| "toFixed2 (Some JNull) = Inl (TypeError_read ''null'' ''toFixed'')"
| "toFixed2 (Some (JNum n)) = Inr (Number_toString n @ ''.00'')"
| "toFixed2 (Some v) = Inl (TypeError_not_a_function ''data.fraud_rate.toFixed'')"

section \<open>The stats poll\<close>

text \<open>
  The object literal \<^verbatim>\<open>elements\<close> of the \<^verbatim>\<open>then\<close> callback, its four properties evaluated in
  order; the first one that throws ends the callback.
\<close>

definition stats_elements :: "jsvalue \<Rightarrow> exn + (string \<times> jsvalue) list" where
  "stats_elements data =
     (case get_prop data ''total_transactions'' of Inl e \<Rightarrow> Inl e | Inr transactions \<Rightarrow>
      case get_prop data ''total_amount'' of Inl e \<Rightarrow> Inl e | Inr amount \<Rightarrow>
      case get_prop data ''fraud_count'' of Inl e \<Rightarrow> Inl e | Inr fraud \<Rightarrow>
      case get_prop data ''fraud_rate'' of Inl e \<Rightarrow> Inl e | Inr rate \<Rightarrow>
      case toFixed2 rate of Inl e \<Rightarrow> Inl e | Inr fixed \<Rightarrow>
        Inr [(''stat-total'', transactions),
             (''stat-amount'', Some (JStr (formatCurrency amount))),
             (''stat-fraud'', fraud),
             (''stat-rate'', Some (JStr (fixed @ ''%'')))])"

text \<open>
  Assigning a value to \<^verbatim>\<open>el.textContent\<close>: \<^verbatim>\<open>null\<close> and \<^verbatim>\<open>undefined\<close> give the empty text,
  any other value its string.
\<close>

fun DOMString_of :: "jsvalue \<Rightarrow> string" where
  "DOMString_of None = []"
| "DOMString_of (Some JNull) = []"
| "DOMString_of (Some v) = ToString v"

text \<open>\<^verbatim>\<open>Object.keys(elements).forEach\<close>: an id with no element in the page is skipped.\<close>

fun render :: "(string \<times> jsvalue) list \<Rightarrow> page \<Rightarrow> page" where
  "render [] w = w"
| "render ((ident, v) # rest) w =
     render rest (case textContent w ident of
                    None \<Rightarrow> w
                  | Some old \<Rightarrow> w\<lparr>textContent := (textContent w)(ident \<mapsto> DOMString_of v)\<rparr>)"

text \<open>
  The two callbacks, and \<^verbatim>\<open>p.then(f)\<close> and \<^verbatim>\<open>p.catch(g)\<close> on a settled promise: a callback
  that throws rejects the promise it feeds, one that returns fulfils it.
\<close>

definition updateStats_then :: "jsvalue \<Rightarrow> page \<Rightarrow> page \<times> (exn + jsvalue)" where
  "updateStats_then data w =
     (case stats_elements data of
        Inl e \<Rightarrow> (w, Inl e)
      | Inr elements \<Rightarrow> (render elements w, Inr None))"

definition updateStats_catch :: "exn \<Rightarrow> page \<Rightarrow> page \<times> (exn + jsvalue)" where
  "updateStats_catch error w =
     (w\<lparr>console := console w @ [(''Failed to update stats:'', error)]\<rparr>, Inr None)"

definition promise_then ::
  "page \<times> (exn + jsvalue) \<Rightarrow> (jsvalue \<Rightarrow> page \<Rightarrow> page \<times> (exn + jsvalue)) \<Rightarrow> page \<times> (exn + jsvalue)" where
  "promise_then p f = (case p of (w, Inl e) \<Rightarrow> (w, Inl e) | (w, Inr v) \<Rightarrow> f v w)"

definition promise_catch ::
  "page \<times> (exn + jsvalue) \<Rightarrow> (exn \<Rightarrow> page \<Rightarrow> page \<times> (exn + jsvalue)) \<Rightarrow> page \<times> (exn + jsvalue)" where
  "promise_catch p g = (case p of (w, Inl e) \<Rightarrow> g e w | (w, Inr v) \<Rightarrow> (w, Inr v))"

text \<open>
  \<^verbatim>\<open>updateStats\<close>: the call sends the request and returns; the rest runs when \<^verbatim>\<open>fetch\<close>
  settles, and gives the page and the settlement of the promise at the end of the chain.
  \<open>updateStats_tick\<close> is one whole tick, call and continuation.
\<close>

definition updateStats :: "page \<Rightarrow> page" where
  "updateStats w = apiRequest_call ''/api/stats'' None None w"

definition updateStats_settle :: "fetch_outcome \<Rightarrow> page \<Rightarrow> page \<times> (exn + jsvalue)" where
  "updateStats_settle outcome w =
     promise_catch (promise_then (apiRequest_settle outcome w) updateStats_then) updateStats_catch"


section \<open>Timers and the event loop\<close>

text \<open>
  \<^verbatim>\<open>classList.add\<close>: the class attribute becomes its tokens (split at ASCII whitespace), the
  new one last if absent.
\<close>

definition ascii_whitespace :: "char \<Rightarrow> bool" where
  "ascii_whitespace c = (c \<in> set [CHR '' '', CHR 0x09, CHR 0x0A, CHR 0x0C, CHR 0x0D])"

fun tokens :: "string \<Rightarrow> string \<Rightarrow> string list" where
  "tokens acc [] = (if acc = [] then [] else [acc])"
| "tokens acc (c # cs) =
     (if ascii_whitespace c then (if acc = [] then [] else [acc]) @ tokens [] cs
      else tokens (acc @ [c]) cs)"

definition classList_add :: "string \<Rightarrow> string \<Rightarrow> string" where
  "classList_add token cls =
     (let ts = remdups (rev (remdups (rev (tokens [] cls))))
      in join '' '' (if token \<in> set ts then ts else ts @ [token]))"

text \<open>
  The callbacks \<^verbatim>\<open>showToast\<close> sets: after 5000 ms the toast gets the class \<^verbatim>\<open>fade-out\<close> and
  a 300 ms timer, whose callback removes the toast from the page.
\<close>

fun fire :: "task \<Rightarrow> page \<Rightarrow> page" where
  "fire (FadeOut n) w =
     w\<lparr>toasts := map (\<lambda>t. if node t = n then t\<lparr>className := classList_add ''fade-out'' (className t)\<rparr> else t)
                    (toasts w),
       timeouts := timeouts w @ [(now w + 300, Remove n)]\<rparr>"
| "fire (Remove n) w = w\<lparr>toasts := filter (\<lambda>t. node t \<noteq> n) (toasts w)\<rparr>"

text \<open>
  One millisecond of the event loop: the clock advances, the one-shot timers now due run in
  the order they were set, and the recurring timer, when due, calls \<^verbatim>\<open>updateStats\<close> (whose
  request is then in flight) and is due again one period later.
\<close>

definition run_timeouts :: "page \<Rightarrow> page" where
  "run_timeouts w =
     foldl (\<lambda>w' dt. fire (snd dt) w')
       (w\<lparr>timeouts := filter (\<lambda>dt. now w < fst dt) (timeouts w)\<rparr>)
       (filter (\<lambda>dt. fst dt \<le> now w) (timeouts w))"

definition run_interval :: "page \<Rightarrow> page" where
  "run_interval w =
     (case interval w of
        None \<Rightarrow> w
      | Some (period, due) \<Rightarrow>
          if due \<le> now w
          then (updateStats (w\<lparr>interval := Some (period, due + period)\<rparr>))
                 \<lparr>inflight := inflight w @ [length (requests w)]\<rparr>
          else w)"

definition millisecond :: "page \<Rightarrow> page" where
  "millisecond w = run_interval (run_timeouts (w\<lparr>now := Suc (now w)\<rparr>))"

text \<open>
  What happens to the page from outside: time passes, a request in flight settles (the
  continuation of \<^verbatim>\<open>updateStats\<close> runs), the user clicks the close button of a toast.
\<close>

datatype event = Elapse nat | Settle nat fetch_outcome | Close nat

fun step :: "event \<Rightarrow> page \<Rightarrow> page" where
  "step (Elapse ms) w = (millisecond ^^ ms) w"
| "step (Settle i outcome) w =
     (if i \<in> set (inflight w)
      then fst (updateStats_settle outcome (w\<lparr>inflight := removeAll i (inflight w)\<rparr>))
      else w)"
| "step (Close n) w = w\<lparr>toasts := filter (\<lambda>t. node t \<noteq> n) (toasts w)\<rparr>"

fun run :: "event list \<Rightarrow> page \<Rightarrow> page" where
  "run [] w = w"
| "run (e # es) w = run es (step e w)"

fun elapsed :: "event list \<Rightarrow> nat" where
  "elapsed [] = 0"
| "elapsed (Elapse ms # es) = ms + elapsed es"
| "elapsed (e # es) = elapsed es"

text \<open>\<^verbatim>\<open>String.prototype.includes\<close>.\<close>

definition String_includes :: "string \<Rightarrow> string \<Rightarrow> bool" where
  "String_includes s t = list_ex (prefix t) (suffixes s)"

text \<open>
  The last statement of the script, run once when the page loads:
  \<^verbatim>\<open>if (window.location.pathname.includes('dashboard')) setInterval(updateStats, 30000)\<close>.
\<close>

definition main_js :: "string \<Rightarrow> page \<Rightarrow> page" where
  "main_js pathname w =
     (if String_includes pathname ''dashboard'' then w\<lparr>interval := Some (30000, now w + 30000)\<rparr> else w)"

text \<open>A page just loaded, with the texts of its elements.\<close>

definition page_load :: "string \<Rightarrow> (string \<rightharpoonup> string) \<Rightarrow> page" where
  "page_load pathname texts =
     main_js pathname
       \<lparr>now = 0, textContent = texts, toast_container = False, toasts = [], next_node = 0,
        console = [], timeouts = [], interval = None, requests = [], inflight = []\<rparr>"

section \<open>Reading JSON back\<close>
















section \<open>Invariants of a run\<close>

text \<open>
  The request that the tick number \<open>i + 1\<close> of the stats poll sends, with its time; and what
  holds of a page on which the poll is scheduled: the recurring timer is due at the next
  multiple of its period, and the requests sent so far are those of the ticks before.
\<close>

definition stats_request :: "nat \<Rightarrow> nat \<times> string \<times> options" where
  "stats_request i =
     (30000 * Suc i, ''/api/stats'',
      \<lparr>method = ''GET'', headers = [(''Content-Type'', ''application/json'')], body = None\<rparr>)"

definition poll_inv :: "page \<Rightarrow> bool" where
  "poll_inv w =
     (\<exists>k. interval w = Some (30000, 30000 * Suc k) \<and> 30000 * k \<le> now w \<and> now w < 30000 * Suc k
          \<and> requests w = map stats_request [0..<k])"

text \<open>
  The life of the toast at node \<open>n\<close> shown at time \<open>t0\<close>: its fade-out is pending until
  \<open>t0 + 5000\<close>, then its removal until \<open>t0 + 5300\<close>, then it is not in the page.
\<close>

definition toast_life :: "nat \<Rightarrow> nat \<Rightarrow> page \<Rightarrow> bool" where
  "toast_life n t0 w =
     (n < next_node w \<and>
      (now w < t0 + 5000 \<and> (t0 + 5000, FadeOut n) \<in> set (timeouts w)
       \<or> now w < t0 + 5300 \<and> (t0 + 5300, Remove n) \<in> set (timeouts w)
       \<or> n \<notin> node ` set (toasts w)))"

text \<open>
  The node a timer callback acts on; every pending timer acts on a node already created; and
  the toast at node \<open>n\<close> shown at time \<open>t0\<close> while it is displayed: it is in the page, its
  fade-out is due at \<open>t0 + 5000\<close> and not yet overdue, its removal at \<open>t0 + 5300\<close>.
\<close>

fun task_node :: "task \<Rightarrow> nat" where
  "task_node (FadeOut n) = n"
| "task_node (Remove n) = n"

definition timers_known :: "page \<Rightarrow> bool" where
  "timers_known w = (\<forall>dt \<in> set (timeouts w). task_node (snd dt) < next_node w)"

definition toast_shown :: "nat \<Rightarrow> nat \<Rightarrow> page \<Rightarrow> bool" where
  "toast_shown n t0 w =
     (n < next_node w \<and> n \<in> node ` set (toasts w)
      \<and> (\<forall>d. (d, Remove n) \<in> set (timeouts w) \<longrightarrow> d = t0 + 5300)
      \<and> (\<forall>d. (d, FadeOut n) \<in> set (timeouts w) \<longrightarrow> d = t0 + 5000 \<and> now w < d))"

section \<open>Properties of the API helper\<close>

lemma toasts_showToast:
  "toasts (showToast msg ty w) =
     toasts w @ [\<lparr>node = next_node w,
                  className = ''toast toast-'' @ (case ty of None \<Rightarrow> ''info'' | Some t \<Rightarrow> t) @ '' show'',
                  innerHTML = toast_html (getToastIcon (case ty of None \<Rightarrow> ''info'' | Some t \<Rightarrow> t)) msg\<rparr>]"
  by (simp add: showToast_def createToastContainer_def Let_def)

lemma getToastIcon_error: "getToastIcon ''error'' = ''exclamation-circle''"
  by (simp add: getToastIcon_def)

lemma apiRequest_throw:
  assumes "apiRequest_try outcome = Inl e"
  shows "apiRequest outcome url m d w =
           (showToast (message e) (Some ''error'')
              ((apiRequest_call url m d w)\<lparr>console := console w @ [(''API Error:'', e)]\<rparr>), Inl e)"
  using assms by (simp add: apiRequest_def apiRequest_settle_def apiRequest_catch_def apiRequest_call_def)


lemma toasts_apiRequest_call: "toasts (apiRequest_call url m d w) = toasts w"
  and next_node_apiRequest_call: "next_node (apiRequest_call url m d w) = next_node w"
  and console_apiRequest_call: "console (apiRequest_call url m d w) = console w"
  and textContent_apiRequest_call: "textContent (apiRequest_call url m d w) = textContent w"
  by (simp_all add: apiRequest_call_def)

lemma apiRequest_throw_toasts:
  assumes "apiRequest_try outcome = Inl e"
  shows "toasts (fst (apiRequest outcome url m d w)) =
           toasts w @ [\<lparr>node = next_node w, className = ''toast toast-error show'',
                        innerHTML = toast_html ''exclamation-circle'' (message e)\<rparr>]"
  by (simp add: apiRequest_throw [OF assms] toasts_showToast getToastIcon_error
        toasts_apiRequest_call next_node_apiRequest_call)





text \<open>
  The body \<^verbatim>\<open>null\<close> has no \<^verbatim>\<open>error\<close> field either; reading the field throws, and the failure
  is that \<^verbatim>\<open>TypeError\<close>.
\<close>

lemma apiRequest_null_body:
  assumes "\<not> ok r" and "json_body r = Inr JNull"
  shows "snd (apiRequest (Resolved r) url m d w) = Inl (TypeError_read ''null'' ''error'')"
proof -
  have "apiRequest_try (Resolved r) = Inl (TypeError_read ''null'' ''error'')"
    using assms by (simp add: apiRequest_try_def)
  from apiRequest_throw [OF this] show ?thesis by simp
qed

text \<open>
  Claim C8.  The body is parsed before the status is looked at: for a response with a status
  outside 200..299 whose body is not valid JSON, the failure of \<^verbatim>\<open>apiRequest\<close> is the parse
  error itself, and the toast shows that error's message; no \<^verbatim>\<open>Error\<close> is built from an
  \<^verbatim>\<open>error\<close> field or from the fallback text.
\<close>

theorem apiRequest_parse_before_status:
  assumes "\<not> ok r" and "json_body r = Inl e"
  shows "snd (apiRequest (Resolved r) url m d w) = Inl e
       \<and> toasts (fst (apiRequest (Resolved r) url m d w)) =
           toasts w @ [\<lparr>node = next_node w, className = ''toast toast-error show'',
                        innerHTML = toast_html ''exclamation-circle'' (message e)\<rparr>]"
proof -
  have t: "apiRequest_try (Resolved r) = Inl e"
    using assms by (simp add: apiRequest_try_def)
  have "snd (apiRequest (Resolved r) url m d w) = Inl e"
    by (simp add: apiRequest_throw [OF t])
  with apiRequest_throw_toasts [OF t] show ?thesis
    by blast
qed

theorem apiRequest_parse_before_status_witness:
  "snd (apiRequest (Resolved \<lparr>status = 502, json_body = Inl (Exn ''SyntaxError'' ''Unexpected token <'')\<rparr>)
          ''/api/stats'' None None (page_load ''/dashboard'' (map_of [])))
     = Inl (Exn ''SyntaxError'' ''Unexpected token <'')"
  using apiRequest_parse_before_status
          [of "\<lparr>status = 502, json_body = Inl (Exn ''SyntaxError'' ''Unexpected token <'')\<rparr>"
              "Exn ''SyntaxError'' ''Unexpected token <''" "''/api/stats''" None None
              "page_load ''/dashboard'' (map_of [])"]
  by (simp add: ok_def)





section \<open>Properties of the stats poll\<close>

lemma render_eq: "render els w = w\<lparr>textContent := textContent (render els w)\<rparr>"
proof (induction els arbitrary: w)
  case Nil
  show ?case by simp
next
  case (Cons kv els)
  obtain k v where kv: "kv = (k, v)" by (cases kv)
  show ?case
  proof (cases "textContent w k")
    case None
    with Cons.IH [of w] show ?thesis by (simp add: kv)
  next
    case (Some old)
    with Cons.IH [of "w\<lparr>textContent := (textContent w)(k \<mapsto> DOMString_of v)\<rparr>"]
    show ?thesis by (simp add: kv)
  qed
qed

lemma render_other_fields:
  "console (render els w) = console w" "toasts (render els w) = toasts w"
  "timeouts (render els w) = timeouts w" "interval (render els w) = interval w"
  "requests (render els w) = requests w" "inflight (render els w) = inflight w"
  "now (render els w) = now w" "next_node (render els w) = next_node w"
  "toast_container (render els w) = toast_container w"
  by (subst render_eq, simp)+


















section \<open>Properties of the schedule\<close>

lemma String_includes_sublist: "String_includes s t \<longleftrightarrow> sublist t s"
  by (auto simp: String_includes_def list_ex_iff sublist_altdef')

lemma fire_frame:
  "now (fire t w) = now w" "interval (fire t w) = interval w" "requests (fire t w) = requests w"
  "inflight (fire t w) = inflight w" "next_node (fire t w) = next_node w"
  by (cases t; simp)+

lemma fires_frame:
  "now (foldl (\<lambda>w' dt. fire (snd dt) w') w ds) = now w"
  "interval (foldl (\<lambda>w' dt. fire (snd dt) w') w ds) = interval w"
  "requests (foldl (\<lambda>w' dt. fire (snd dt) w') w ds) = requests w"
  "inflight (foldl (\<lambda>w' dt. fire (snd dt) w') w ds) = inflight w"
  "next_node (foldl (\<lambda>w' dt. fire (snd dt) w') w ds) = next_node w"
  by (induction ds arbitrary: w; simp add: fire_frame)+

lemma run_timeouts_frame:
  "now (run_timeouts w) = now w" "interval (run_timeouts w) = interval w"
  "requests (run_timeouts w) = requests w" "inflight (run_timeouts w) = inflight w"
  "next_node (run_timeouts w) = next_node w"
  by (simp_all add: run_timeouts_def fires_frame)

lemma showToast_frame:
  "now (showToast msg ty w) = now w" "interval (showToast msg ty w) = interval w"
  "requests (showToast msg ty w) = requests w" "inflight (showToast msg ty w) = inflight w"
  "textContent (showToast msg ty w) = textContent w" "console (showToast msg ty w) = console w"
  by (simp_all add: showToast_def createToastContainer_def Let_def)

lemma apiRequest_settle_frame:
  "now (fst (apiRequest_settle outcome w)) = now w"
  "interval (fst (apiRequest_settle outcome w)) = interval w"
  "requests (fst (apiRequest_settle outcome w)) = requests w"
  "inflight (fst (apiRequest_settle outcome w)) = inflight w"
  by (simp_all add: apiRequest_settle_def apiRequest_catch_def showToast_frame split: sum.splits)

lemma updateStats_settle_cases:
  "updateStats_settle outcome w =
     (case apiRequest_settle outcome w of
        (w1, Inl e) \<Rightarrow> updateStats_catch e w1
      | (w1, Inr data) \<Rightarrow>
          (case stats_elements data of
             Inl e \<Rightarrow> updateStats_catch e w1
           | Inr els \<Rightarrow> (render els w1, Inr None)))"
  by (simp add: updateStats_settle_def promise_then_def promise_catch_def updateStats_then_def
        split: prod.splits sum.splits)

lemma updateStats_settle_fulfilled: "snd (updateStats_settle outcome w) = Inr None"
  by (simp add: updateStats_settle_cases updateStats_catch_def split: prod.splits sum.splits)

lemma updateStats_settle_page:
  "(\<exists>e. fst (updateStats_settle outcome w) =
          (fst (apiRequest_settle outcome w))
            \<lparr>console := console (fst (apiRequest_settle outcome w)) @ [(''Failed to update stats:'', e)]\<rparr>)
   \<or> (\<exists>els. fst (updateStats_settle outcome w) = render els (fst (apiRequest_settle outcome w)))"
  by (cases "apiRequest_settle outcome w")
     (auto simp: updateStats_settle_cases updateStats_catch_def split: sum.splits)

lemma updateStats_settle_frame:
  "now (fst (updateStats_settle outcome w)) = now w"
  "interval (fst (updateStats_settle outcome w)) = interval w"
  "requests (fst (updateStats_settle outcome w)) = requests w"
  "inflight (fst (updateStats_settle outcome w)) = inflight w"
  using updateStats_settle_page [of outcome w]
  by (auto simp: render_other_fields apiRequest_settle_frame)


lemma millisecond_no_interval:
  assumes "interval w = None"
  shows "interval (millisecond w) = None" "requests (millisecond w) = requests w"
  using assms by (simp_all add: millisecond_def run_interval_def run_timeouts_frame)

lemma elapse_no_interval:
  "interval w = None \<Longrightarrow>
     interval ((millisecond ^^ ms) w) = None \<and> requests ((millisecond ^^ ms) w) = requests w"
  by (induction ms) (simp_all add: millisecond_no_interval)

lemma step_no_interval:
  assumes "interval w = None"
  shows "interval (step e w) = None \<and> requests (step e w) = requests w"
proof (cases e)
  case (Elapse ms)
  with assms show ?thesis by (simp add: elapse_no_interval)
next
  case (Settle i outcome)
  with assms show ?thesis by (simp add: updateStats_settle_frame)
next
  case (Close n)
  with assms show ?thesis by simp
qed

lemma run_no_interval:
  "interval w = None \<Longrightarrow> requests (run es w) = requests w"
proof (induction es arbitrary: w)
  case Nil
  show ?case by simp
next
  case (Cons e es)
  from step_no_interval [OF Cons.prems, of e] Cons.IH [of "step e w"]
  show ?case by simp
qed

lemma now_millisecond: "now (millisecond w) = Suc (now w)"
  by (simp add: millisecond_def run_interval_def run_timeouts_frame updateStats_def
        apiRequest_call_def split: option.splits)

lemma now_elapse: "now ((millisecond ^^ ms) w) = now w + ms"
  by (induction ms) (simp_all add: now_millisecond)

lemma now_run: "now (run es w) = now w + elapsed es"
proof (induction es arbitrary: w)
  case Nil
  show ?case by simp
next
  case (Cons e es)
  show ?case
    by (cases e) (simp_all add: Cons.IH now_elapse updateStats_settle_frame)
qed

lemma apiRequest_options_default:
  "apiRequest_options None None =
     \<lparr>method = ''GET'', headers = [(''Content-Type'', ''application/json'')], body = None\<rparr>"
  by (simp add: apiRequest_options_def)

lemma poll_inv_millisecond:
  assumes "poll_inv w"
  shows "poll_inv (millisecond w)"
proof -
  from assms obtain k where k: "interval w = Some (30000, 30000 * Suc k)" "30000 * k \<le> now w"
    "now w < 30000 * Suc k" "requests w = map stats_request [0..<k]"
    unfolding poll_inv_def by blast
  let ?w = "run_timeouts (w\<lparr>now := Suc (now w)\<rparr>)"
  have f: "now ?w = Suc (now w)" "interval ?w = Some (30000, 30000 * Suc k)"
    "requests ?w = map stats_request [0..<k]"
    by (simp_all add: run_timeouts_frame k)
  show ?thesis
  proof (cases "30000 * Suc k \<le> Suc (now w)")
    case True
    with k have n: "Suc (now w) = 30000 * Suc k" by simp
    have m: "millisecond w =
               (updateStats (?w\<lparr>interval := Some (30000, 30000 * Suc k + 30000)\<rparr>))
                 \<lparr>inflight := inflight ?w @ [length (requests ?w)]\<rparr>"
      using True by (simp add: millisecond_def run_interval_def f)
    have "interval (millisecond w) = Some (30000, 30000 * Suc (Suc k))"
      by (simp add: m updateStats_def apiRequest_call_def)
    moreover have "requests (millisecond w) =
                     map stats_request [0..<k] @ [(Suc (now w), ''/api/stats'', apiRequest_options None None)]"
      by (simp add: m updateStats_def apiRequest_call_def f)
    then have "requests (millisecond w) = map stats_request [0..<Suc k]"
      by (simp add: n stats_request_def apiRequest_options_default)
    moreover have "now (millisecond w) = 30000 * Suc k"
      by (simp add: now_millisecond n)
    ultimately show ?thesis
      unfolding poll_inv_def by (intro exI [of _ "Suc k"]) simp
  next
    case False
    then have "millisecond w = ?w"
      by (simp add: millisecond_def run_interval_def f)
    with False k f show ?thesis
      unfolding poll_inv_def by (intro exI [of _ k]) simp
  qed
qed

lemma poll_inv_step:
  assumes "poll_inv w"
  shows "poll_inv (step e w)"
proof (cases e)
  case (Elapse ms)
  have "poll_inv ((millisecond ^^ ms) w)"
    by (induction ms) (simp_all add: assms poll_inv_millisecond)
  with Elapse show ?thesis by simp
next
  case (Settle i outcome)
  with assms show ?thesis
    by (simp add: poll_inv_def updateStats_settle_frame)
next
  case (Close n)
  with assms show ?thesis by (simp add: poll_inv_def)
qed

lemma poll_inv_run: "poll_inv w \<Longrightarrow> poll_inv (run es w)"
  by (induction es arbitrary: w) (simp_all add: poll_inv_step)

lemma poll_inv_page_load:
  "sublist ''dashboard'' pathname \<Longrightarrow> poll_inv (page_load pathname texts)"
  unfolding poll_inv_def
  by (intro exI [of _ 0]) (simp add: page_load_def main_js_def String_includes_sublist)

lemma poll_inv_div:
  assumes "poll_inv w"
  shows "interval w = Some (30000, 30000 * Suc (now w div 30000))
       \<and> requests w = map stats_request [0..<now w div 30000]"
proof -
  from assms obtain k where k: "interval w = Some (30000, 30000 * Suc k)" "30000 * k \<le> now w"
    "now w < 30000 * Suc k" "requests w = map stats_request [0..<k]"
    unfolding poll_inv_def by blast
  from k(2,3) have "now w div 30000 = k"
    by (simp add: div_nat_eqI mult.commute)
  with k show ?thesis by simp
qed

text \<open>
  Claim C6.  Loading the page schedules the stats poll, every 30000 ms, exactly when the path
  contains \<^verbatim>\<open>dashboard\<close>; on a page whose path does not contain it, whatever happens
  afterwards (time passing, requests settling, clicks), no request is ever sent.
\<close>

theorem stats_poll_scheduled_iff_dashboard:
  "(interval (page_load pathname texts) = Some (30000, 30000)) = sublist ''dashboard'' pathname
   \<and> (interval (page_load pathname texts) = None) = (\<not> sublist ''dashboard'' pathname)
   \<and> (\<not> sublist ''dashboard'' pathname \<longrightarrow> requests (run es (page_load pathname texts)) = [])"
proof -
  have a: "(interval (page_load pathname texts) = Some (30000, 30000)) = sublist ''dashboard'' pathname"
    and b: "(interval (page_load pathname texts) = None) = (\<not> sublist ''dashboard'' pathname)"
    and r: "requests (page_load pathname texts) = []"
    by (simp_all add: page_load_def main_js_def String_includes_sublist)
  from b r run_no_interval [of "page_load pathname texts" es]
  have "\<not> sublist ''dashboard'' pathname \<longrightarrow> requests (run es (page_load pathname texts)) = []"
    by simp
  with a b show ?thesis by blast
qed

text \<open>
  Claim C7.  On a dashboard page, after any sequence of events, whatever the requests of
  earlier ticks settled with, the recurring timer is still set with its period of 30000 ms
  and due at the next multiple of it, and the requests sent are exactly one per multiple of
  30000 ms elapsed, each at its multiple: tick \<open>n + 1\<close> runs on schedule after tick \<open>n\<close>,
  failed or not.  The promise at the end of a tick's chain is always fulfilled, so no failure
  leaves \<^verbatim>\<open>updateStats\<close>.
\<close>

theorem stats_poll_schedule_isolated:
  assumes "sublist ''dashboard'' pathname"
  shows "now (run es (page_load pathname texts)) = elapsed es
       \<and> interval (run es (page_load pathname texts)) = Some (30000, 30000 * Suc (elapsed es div 30000))
       \<and> requests (run es (page_load pathname texts)) = map stats_request [0..<elapsed es div 30000]
       \<and> snd (updateStats_settle outcome w) = Inr None"
proof -
  have n: "now (run es (page_load pathname texts)) = elapsed es"
    by (simp add: now_run page_load_def main_js_def)
  from poll_inv_div [OF poll_inv_run [OF poll_inv_page_load [OF assms]], of es texts] n
  show ?thesis
    by (simp add: updateStats_settle_fulfilled)
qed


theorem stats_poll_scheduled_iff_dashboard_witness:
  "interval (page_load ''/admin/dashboard'' (map_of [])) = Some (30000, 30000)
   \<and> requests (run [Elapse 60000] (page_load ''/login'' (map_of []))) = []"
proof -
  have a: "sublist ''dashboard'' ''/admin/dashboard''"
    by code_simp
  have b: "\<not> sublist ''dashboard'' ''/login''"
    by code_simp
  from a stats_poll_scheduled_iff_dashboard [of "''/admin/dashboard''" "map_of []" "[]"]
  have "interval (page_load ''/admin/dashboard'' (map_of [])) = Some (30000, 30000)"
    by blast
  moreover from b stats_poll_scheduled_iff_dashboard [of "''/login''" "map_of []" "[Elapse 60000]"]
  have "requests (run [Elapse 60000] (page_load ''/login'' (map_of []))) = []"
    by blast
  ultimately show ?thesis by blast
qed

theorem stats_poll_schedule_isolated_witness:
  "requests (run [Elapse 30000, Settle 0 (Rejected (Exn ''TypeError'' ''Failed to fetch'')), Elapse 30000]
               (page_load ''/admin/dashboard'' (map_of [])))
     = [stats_request 0, stats_request 1]"
proof -
  have a: "sublist ''dashboard'' ''/admin/dashboard''"
    by code_simp
  have b: "[0..<2] = [0, Suc 0]"
    by (simp add: upt_rec)
  from stats_poll_schedule_isolated
         [OF a, of "[Elapse 30000, Settle 0 (Rejected (Exn ''TypeError'' ''Failed to fetch'')), Elapse 30000]"
                   "map_of []"]
  show ?thesis
    by (simp add: b)
qed

section \<open>Properties of the toast timers\<close>

lemma fire_timeouts_mono: "x \<in> set (timeouts w) \<Longrightarrow> x \<in> set (timeouts (fire t w))"
  by (cases t) simp_all

lemma fire_nodes: "n \<notin> node ` set (toasts w) \<Longrightarrow> n \<notin> node ` set (toasts (fire t w))"
  by (cases t) (auto simp: image_iff)

lemma fires_timeouts_mono:
  "x \<in> set (timeouts w) \<Longrightarrow> x \<in> set (timeouts (foldl (\<lambda>w' dt. fire (snd dt) w') w ds))"
  by (induction ds arbitrary: w) (simp_all add: fire_timeouts_mono)

lemma fires_nodes:
  "n \<notin> node ` set (toasts w) \<Longrightarrow> n \<notin> node ` set (toasts (foldl (\<lambda>w' dt. fire (snd dt) w') w ds))"
  by (induction ds arbitrary: w) (simp_all add: fire_nodes)

lemma fires_FadeOut:
  "(d, FadeOut n) \<in> set ds \<Longrightarrow>
     (now w + 300, Remove n) \<in> set (timeouts (foldl (\<lambda>w' dt. fire (snd dt) w') w ds))"
proof (induction ds arbitrary: w)
  case Nil
  then show ?case by simp
next
  case (Cons x ds)
  show ?case
  proof (cases "x = (d, FadeOut n)")
    case True
    have "(now w + 300, Remove n) \<in> set (timeouts (fire (FadeOut n) w))"
      by simp
    from fires_timeouts_mono [OF this, of ds] True show ?thesis
      by simp
  next
    case False
    with Cons.prems have "(d, FadeOut n) \<in> set ds" by simp
    from Cons.IH [OF this, of "fire (snd x) w"] show ?thesis
      by (simp add: fire_frame)
  qed
qed

lemma fires_Remove:
  "(d, Remove n) \<in> set ds \<Longrightarrow>
     n \<notin> node ` set (toasts (foldl (\<lambda>w' dt. fire (snd dt) w') w ds))"
proof (induction ds arbitrary: w)
  case Nil
  then show ?case by simp
next
  case (Cons x ds)
  show ?case
  proof (cases "x = (d, Remove n)")
    case True
    have "n \<notin> node ` set (toasts (fire (Remove n) w))"
      by auto
    from fires_nodes [OF this, of ds] True show ?thesis
      by simp
  next
    case False
    with Cons.prems have "(d, Remove n) \<in> set ds" by simp
    from Cons.IH [OF this, of "fire (snd x) w"] show ?thesis
      by simp
  qed
qed

lemma run_interval_frame:
  "now (run_interval w) = now w" "toasts (run_interval w) = toasts w"
  "timeouts (run_interval w) = timeouts w" "next_node (run_interval w) = next_node w"
  by (simp_all add: run_interval_def updateStats_def apiRequest_call_def split: option.splits)

lemma toast_life_millisecond:
  assumes "toast_life n t0 w"
  shows "toast_life n t0 (millisecond w)"
proof -
  let ?w = "w\<lparr>now := Suc (now w)\<rparr>"
  let ?due = "filter (\<lambda>dt. fst dt \<le> Suc (now w)) (timeouts w)"
  let ?start = "w\<lparr>now := Suc (now w), timeouts := filter (\<lambda>dt. Suc (now w) < fst dt) (timeouts w)\<rparr>"
  have rt: "run_timeouts ?w = foldl (\<lambda>w' dt. fire (snd dt) w') ?start ?due"
    by (simp add: run_timeouts_def)
  have nn: "next_node (millisecond w) = next_node w" and nw: "now (millisecond w) = Suc (now w)"
    by (simp_all add: millisecond_def run_interval_frame run_timeouts_frame)
  have ts: "timeouts (millisecond w) = timeouts (run_timeouts ?w)"
    and to: "toasts (millisecond w) = toasts (run_timeouts ?w)"
    by (simp_all add: millisecond_def run_interval_frame)
  from assms have n: "n < next_node w"
    by (simp add: toast_life_def)
  from assms consider
      (fade) "now w < t0 + 5000" "(t0 + 5000, FadeOut n) \<in> set (timeouts w)"
    | (remove) "now w < t0 + 5300" "(t0 + 5300, Remove n) \<in> set (timeouts w)"
    | (gone) "n \<notin> node ` set (toasts w)"
    by (auto simp: toast_life_def)
  then show ?thesis
  proof cases
    case fade
    show ?thesis
    proof (cases "Suc (now w) < t0 + 5000")
      case True
      with fade have "(t0 + 5000, FadeOut n) \<in> set (timeouts ?start)" by simp
      from fires_timeouts_mono [OF this, of ?due]
      have "(t0 + 5000, FadeOut n) \<in> set (timeouts (millisecond w))"
        by (simp add: ts rt)
      with True n show ?thesis
        by (simp add: toast_life_def nn nw)
    next
      case False
      with fade have e: "Suc (now w) = t0 + 5000" by simp
      with fade have "(t0 + 5000, FadeOut n) \<in> set ?due" by simp
      from fires_FadeOut [OF this, of ?start]
      have "(Suc (now w) + 300, Remove n) \<in> set (timeouts (millisecond w))"
        by (simp add: ts rt)
      moreover have "Suc (now w) + 300 = t0 + 5300"
        using e by arith
      ultimately have "(t0 + 5300, Remove n) \<in> set (timeouts (millisecond w))"
        by (simp only:)
      with e n show ?thesis
        by (simp add: toast_life_def nn nw)
    qed
  next
    case remove
    show ?thesis
    proof (cases "Suc (now w) < t0 + 5300")
      case True
      with remove have "(t0 + 5300, Remove n) \<in> set (timeouts ?start)" by simp
      from fires_timeouts_mono [OF this, of ?due]
      have "(t0 + 5300, Remove n) \<in> set (timeouts (millisecond w))"
        by (simp add: ts rt)
      with True n show ?thesis
        by (simp add: toast_life_def nn nw)
    next
      case False
      with remove have "(t0 + 5300, Remove n) \<in> set ?due" by simp
      from fires_Remove [OF this, of ?start]
      have "n \<notin> node ` set (toasts (millisecond w))"
        by (simp add: to rt)
      with n show ?thesis
        by (simp add: toast_life_def nn)
    qed
  next
    case gone
    then have "n \<notin> node ` set (toasts ?start)" by simp
    from fires_nodes [OF this, of ?due]
    have "n \<notin> node ` set (toasts (millisecond w))"
      by (simp add: to rt)
    with n show ?thesis
      by (simp add: toast_life_def nn)
  qed
qed


lemma apiRequest_settle_page:
  "fst (apiRequest_settle outcome w) = w
   \<or> (\<exists>e. fst (apiRequest_settle outcome w) =
            showToast (message e) (Some ''error'') (w\<lparr>console := console w @ [(''API Error:'', e)]\<rparr>))"
  by (auto simp: apiRequest_settle_def apiRequest_catch_def split: sum.splits)

lemma showToast_toasts_timeouts:
  "next_node (showToast msg ty w) = Suc (next_node w)"
  "set (timeouts (showToast msg ty w)) = insert (now w + 5000, FadeOut (next_node w)) (set (timeouts w))"
  "node ` set (toasts (showToast msg ty w)) = insert (next_node w) (node ` set (toasts w))"
  by (simp_all add: showToast_def createToastContainer_def Let_def)

lemma apiRequest_settle_ext:
  "next_node w \<le> next_node (fst (apiRequest_settle outcome w))"
  "set (timeouts w) \<subseteq> set (timeouts (fst (apiRequest_settle outcome w)))"
  "node ` set (toasts (fst (apiRequest_settle outcome w))) \<subseteq> insert (next_node w) (node ` set (toasts w))"
proof -
  from apiRequest_settle_page [of outcome w] consider
      (same) "fst (apiRequest_settle outcome w) = w"
    | (toast) e where "fst (apiRequest_settle outcome w) =
          showToast (message e) (Some ''error'') (w\<lparr>console := console w @ [(''API Error:'', e)]\<rparr>)"
    by blast
  then show "next_node w \<le> next_node (fst (apiRequest_settle outcome w))"
    by cases (simp_all add: showToast_toasts_timeouts)
  from apiRequest_settle_page [of outcome w]
  show "set (timeouts w) \<subseteq> set (timeouts (fst (apiRequest_settle outcome w)))"
    by (elim disjE exE) (simp_all add: showToast_toasts_timeouts subset_insertI)
  from apiRequest_settle_page [of outcome w]
  show "node ` set (toasts (fst (apiRequest_settle outcome w))) \<subseteq> insert (next_node w) (node ` set (toasts w))"
    by (elim disjE exE) (simp_all add: showToast_toasts_timeouts subset_insertI)
qed

lemma updateStats_settle_ext:
  "next_node w \<le> next_node (fst (updateStats_settle outcome w))"
  "set (timeouts w) \<subseteq> set (timeouts (fst (updateStats_settle outcome w)))"
  "node ` set (toasts (fst (updateStats_settle outcome w))) \<subseteq> insert (next_node w) (node ` set (toasts w))"
proof -
  let ?a = "fst (apiRequest_settle outcome w)"
  from updateStats_settle_page [of outcome w]
  have "next_node (fst (updateStats_settle outcome w)) = next_node ?a
      \<and> timeouts (fst (updateStats_settle outcome w)) = timeouts ?a
      \<and> toasts (fst (updateStats_settle outcome w)) = toasts ?a"
    by (elim disjE exE) (simp_all add: render_other_fields)
  with apiRequest_settle_ext [where w = w and outcome = outcome]
  show "next_node w \<le> next_node (fst (updateStats_settle outcome w))"
    "set (timeouts w) \<subseteq> set (timeouts (fst (updateStats_settle outcome w)))"
    "node ` set (toasts (fst (updateStats_settle outcome w))) \<subseteq> insert (next_node w) (node ` set (toasts w))"
    by simp_all
qed

lemma toast_life_settle:
  assumes "toast_life n t0 w"
  shows "toast_life n t0 (fst (updateStats_settle outcome (w\<lparr>inflight := xs\<rparr>)))"
proof -
  let ?w = "w\<lparr>inflight := xs\<rparr>"
  let ?w' = "fst (updateStats_settle outcome ?w)"
  have a: "now ?w' = now w" "next_node w \<le> next_node ?w'" "set (timeouts w) \<subseteq> set (timeouts ?w')"
    "node ` set (toasts ?w') \<subseteq> insert (next_node w) (node ` set (toasts w))"
    using updateStats_settle_ext [where w = ?w and outcome = outcome] updateStats_settle_frame(1) [of outcome ?w]
    by simp_all
  from assms have n: "n < next_node w"
    by (simp add: toast_life_def)
  with a(4) have "n \<notin> node ` set (toasts w) \<Longrightarrow> n \<notin> node ` set (toasts ?w')"
    by auto
  with assms a(1,2,3) n show ?thesis
    unfolding toast_life_def by (auto simp del: fst_conv)
qed

lemma toast_life_step:
  assumes "toast_life n t0 w"
  shows "toast_life n t0 (step e w)"
proof (cases e)
  case (Elapse ms)
  have "toast_life n t0 ((millisecond ^^ ms) w)"
    by (induction ms) (simp_all add: assms toast_life_millisecond)
  with Elapse show ?thesis by simp
next
  case (Settle i outcome)
  with assms toast_life_settle [OF assms] show ?thesis
    by simp
next
  case (Close m)
  with assms show ?thesis
    by (auto simp: toast_life_def)
qed

lemma toast_life_run: "toast_life n t0 w \<Longrightarrow> toast_life n t0 (run es w)"
  by (induction es arbitrary: w) (simp_all add: toast_life_step)

lemma toast_life_showToast: "toast_life (next_node w) (now w) (showToast msg ty w)"
  by (simp add: toast_life_def showToast_toasts_timeouts showToast_frame)

lemma toast_life_end:
  assumes "toast_life n t0 w" and "t0 + 5300 \<le> now w"
  shows "n \<notin> node ` set (toasts w)"
  using assms by (auto simp: toast_life_def)

lemma timers_known_fire:
  assumes "timers_known w" and "task_node t < next_node w"
  shows "timers_known (fire t w)"
  using assms by (cases t) (auto simp: timers_known_def)

lemma timers_known_fires:
  assumes "timers_known w" and "\<forall>dt \<in> set ds. task_node (snd dt) < next_node w"
  shows "timers_known (foldl (\<lambda>w' dt. fire (snd dt) w') w ds)"
  using assms
proof (induction ds arbitrary: w)
  case Nil
  then show ?case by simp
next
  case (Cons dt ds)
  from Cons.prems have "timers_known (fire (snd dt) w)"
    by (simp add: timers_known_fire)
  moreover from Cons.prems have "\<forall>x \<in> set ds. task_node (snd x) < next_node (fire (snd dt) w)"
    by (simp add: fire_frame)
  ultimately show ?case
    by (simp add: Cons.IH)
qed

lemma timers_known_millisecond:
  assumes "timers_known w"
  shows "timers_known (millisecond w)"
proof -
  let ?start = "w\<lparr>now := Suc (now w), timeouts := filter (\<lambda>dt. Suc (now w) < fst dt) (timeouts w)\<rparr>"
  let ?due = "filter (\<lambda>dt. fst dt \<le> Suc (now w)) (timeouts w)"
  from assms have "timers_known ?start" "\<forall>dt \<in> set ?due. task_node (snd dt) < next_node ?start"
    by (simp_all add: timers_known_def)
  then have "timers_known (foldl (\<lambda>w' dt. fire (snd dt) w') ?start ?due)"
    by (rule timers_known_fires)
  then have "timers_known (run_timeouts (w\<lparr>now := Suc (now w)\<rparr>))"
    by (simp add: run_timeouts_def)
  then show ?thesis
    by (simp add: timers_known_def millisecond_def run_interval_frame)
qed

lemma timers_known_showToast:
  assumes "timers_known w"
  shows "timers_known (showToast msg ty w)"
  using assms by (auto simp: timers_known_def showToast_toasts_timeouts less_Suc_eq)

lemma timers_known_settle:
  assumes "timers_known w"
  shows "timers_known (fst (updateStats_settle outcome (w\<lparr>inflight := xs\<rparr>)))"
proof -
  let ?w = "w\<lparr>inflight := xs\<rparr>"
  let ?a = "fst (apiRequest_settle outcome ?w)"
  from assms have k: "timers_known ?w"
    by (simp add: timers_known_def)
  from apiRequest_settle_page [of outcome ?w] have "timers_known ?a"
  proof (elim disjE exE)
    assume "?a = ?w"
    with k show ?thesis by simp
  next
    fix e
    assume a: "?a = showToast (message e) (Some ''error'') (?w\<lparr>console := console ?w @ [(''API Error:'', e)]\<rparr>)"
    from k have "timers_known (?w\<lparr>console := console ?w @ [(''API Error:'', e)]\<rparr>)"
      by (simp add: timers_known_def)
    then show ?thesis
      unfolding a by (rule timers_known_showToast)
  qed
  moreover from updateStats_settle_page [of outcome ?w]
  have "next_node (fst (updateStats_settle outcome ?w)) = next_node ?a
      \<and> timeouts (fst (updateStats_settle outcome ?w)) = timeouts ?a"
    by (elim disjE exE) (simp_all add: render_other_fields)
  ultimately show ?thesis
    by (simp add: timers_known_def)
qed

lemma timers_known_step:
  assumes "timers_known w"
  shows "timers_known (step e w)"
proof (cases e)
  case (Elapse ms)
  have "timers_known ((millisecond ^^ ms) w)"
    by (induction ms) (simp_all add: assms timers_known_millisecond)
  with Elapse show ?thesis by simp
next
  case (Settle i outcome)
  with assms timers_known_settle [OF assms] show ?thesis
    by simp
next
  case (Close m)
  with assms show ?thesis
    by (simp add: timers_known_def)
qed

lemma timers_known_run: "timers_known w \<Longrightarrow> timers_known (run es w)"
  by (induction es arbitrary: w) (simp_all add: timers_known_step)

lemma timers_known_page_load: "timers_known (page_load pathname texts)"
  by (simp add: timers_known_def page_load_def main_js_def)


lemma toast_shown_fire:
  assumes "toast_shown n t0 w" and "t \<noteq> Remove n"
      and "t = FadeOut n \<longrightarrow> now w + 300 = t0 + 5300"
  shows "toast_shown n t0 (fire t w)"
proof (cases t)
  case (FadeOut m)
  have "map node (map (\<lambda>t. if node t = m then t\<lparr>className := classList_add ''fade-out'' (className t)\<rparr> else t) xs)
          = map node xs" for xs
    by (induction xs) simp_all
  from this [of "toasts w"]
  have "set (map node (toasts (fire (FadeOut m) w))) = set (map node (toasts w))"
    by simp
  then have "node ` set (toasts (fire (FadeOut m) w)) = node ` set (toasts w)"
    by (simp only: set_map)
  with assms FadeOut show ?thesis
    by (auto simp: toast_shown_def)
next
  case (Remove m)
  with assms(2) have "m \<noteq> n" by simp
  with assms(1) have "n \<in> node ` set (toasts (fire (Remove m) w))"
    by (auto simp: toast_shown_def image_iff)
  with assms(1) Remove show ?thesis
    by (simp add: toast_shown_def)
qed

lemma toast_shown_fires:
  assumes "toast_shown n t0 w"
      and "\<forall>x \<in> set ds. snd x \<noteq> Remove n \<and> (snd x = FadeOut n \<longrightarrow> now w + 300 = t0 + 5300)"
  shows "toast_shown n t0 (foldl (\<lambda>w' dt. fire (snd dt) w') w ds)"
  using assms
proof (induction ds arbitrary: w)
  case Nil
  then show ?case by simp
next
  case (Cons dt ds)
  from Cons.prems have "toast_shown n t0 (fire (snd dt) w)"
    by (simp add: toast_shown_fire)
  moreover from Cons.prems
  have "\<forall>x \<in> set ds. snd x \<noteq> Remove n \<and> (snd x = FadeOut n \<longrightarrow> now (fire (snd dt) w) + 300 = t0 + 5300)"
    by (simp add: fire_frame)
  ultimately show ?case
    by (simp add: Cons.IH)
qed

lemma toast_shown_millisecond:
  assumes "toast_shown n t0 w" and "Suc (now w) < t0 + 5300"
  shows "toast_shown n t0 (millisecond w)"
proof -
  let ?start = "w\<lparr>now := Suc (now w), timeouts := filter (\<lambda>dt. Suc (now w) < fst dt) (timeouts w)\<rparr>"
  let ?due = "filter (\<lambda>dt. fst dt \<le> Suc (now w)) (timeouts w)"
  from assms(1) have s: "toast_shown n t0 ?start"
    by (auto simp: toast_shown_def)
  have d: "\<forall>x \<in> set ?due. snd x \<noteq> Remove n \<and> (snd x = FadeOut n \<longrightarrow> now ?start + 300 = t0 + 5300)"
  proof
    fix x
    assume x: "x \<in> set ?due"
    obtain d t where dt: "x = (d, t)" by (cases x)
    from x dt have m: "(d, t) \<in> set (timeouts w)" and le: "d \<le> Suc (now w)"
      by simp_all
    have "t \<noteq> Remove n"
    proof
      assume "t = Remove n"
      with m assms(1) have "d = t0 + 5300" by (simp add: toast_shown_def)
      with le assms(2) show False by simp
    qed
    moreover have "t = FadeOut n \<longrightarrow> now ?start + 300 = t0 + 5300"
    proof
      assume "t = FadeOut n"
      with m assms(1) have "d = t0 + 5000 \<and> now w < d" by (simp add: toast_shown_def)
      with le show "now ?start + 300 = t0 + 5300" by simp
    qed
    ultimately show "snd x \<noteq> Remove n \<and> (snd x = FadeOut n \<longrightarrow> now ?start + 300 = t0 + 5300)"
      by (simp add: dt)
  qed
  from toast_shown_fires [OF s d]
  have "toast_shown n t0 (run_timeouts (w\<lparr>now := Suc (now w)\<rparr>))"
    by (simp add: run_timeouts_def)
  then show ?thesis
    by (simp add: toast_shown_def millisecond_def run_interval_frame)
qed

lemma toast_shown_elapse:
  "toast_shown n t0 w \<Longrightarrow> now w + ms < t0 + 5300 \<Longrightarrow> toast_shown n t0 ((millisecond ^^ ms) w)"
proof (induction ms)
  case 0
  then show ?case by simp
next
  case (Suc ms)
  then have "toast_shown n t0 ((millisecond ^^ ms) w)" by simp
  moreover from Suc.prems have "Suc (now ((millisecond ^^ ms) w)) < t0 + 5300"
    by (simp add: now_elapse)
  ultimately show ?case
    by (simp add: toast_shown_millisecond)
qed

lemma toast_shown_showToast:
  assumes "toast_shown n t0 w"
  shows "toast_shown n t0 (showToast msg ty w)"
  using assms by (auto simp: toast_shown_def showToast_toasts_timeouts showToast_frame)

lemma toast_shown_settle:
  assumes "toast_shown n t0 w"
  shows "toast_shown n t0 (fst (updateStats_settle outcome (w\<lparr>inflight := xs\<rparr>)))"
proof -
  let ?w = "w\<lparr>inflight := xs\<rparr>"
  let ?a = "fst (apiRequest_settle outcome ?w)"
  from assms have k: "toast_shown n t0 ?w"
    by (simp add: toast_shown_def)
  from apiRequest_settle_page [of outcome ?w] have "toast_shown n t0 ?a"
  proof (elim disjE exE)
    assume "?a = ?w"
    with k show ?thesis by simp
  next
    fix e
    assume a: "?a = showToast (message e) (Some ''error'') (?w\<lparr>console := console ?w @ [(''API Error:'', e)]\<rparr>)"
    from k have "toast_shown n t0 (?w\<lparr>console := console ?w @ [(''API Error:'', e)]\<rparr>)"
      by (simp add: toast_shown_def)
    then show ?thesis
      unfolding a by (rule toast_shown_showToast)
  qed
  moreover from updateStats_settle_page [of outcome ?w]
  have "next_node (fst (updateStats_settle outcome ?w)) = next_node ?a
      \<and> timeouts (fst (updateStats_settle outcome ?w)) = timeouts ?a
      \<and> toasts (fst (updateStats_settle outcome ?w)) = toasts ?a
      \<and> now (fst (updateStats_settle outcome ?w)) = now ?a"
    by (elim disjE exE) (simp_all add: render_other_fields)
  ultimately show ?thesis
    by (simp add: toast_shown_def)
qed

lemma toast_shown_run:
  "toast_shown n t0 w \<Longrightarrow> now w + elapsed es < t0 + 5300 \<Longrightarrow> Close n \<notin> set es \<Longrightarrow>
     toast_shown n t0 (run es w)"
proof (induction es arbitrary: w)
  case Nil
  then show ?case by simp
next
  case (Cons e es)
  show ?case
  proof (cases e)
    case (Elapse ms)
    with Cons.prems have "toast_shown n t0 (step e w)"
      by (simp add: toast_shown_elapse)
    moreover from Cons.prems Elapse have "now (step e w) + elapsed es < t0 + 5300"
      by (simp add: now_elapse)
    ultimately show ?thesis
      using Cons.prems(3) by (simp add: Cons.IH)
  next
    case (Settle i outcome)
    with Cons.prems(1) have "toast_shown n t0 (step e w)"
      by (simp add: toast_shown_settle)
    moreover from Cons.prems Settle have "now (step e w) + elapsed es < t0 + 5300"
      by (simp add: updateStats_settle_frame)
    ultimately show ?thesis
      using Cons.prems(3) by (simp add: Cons.IH)
  next
    case (Close m)
    with Cons.prems(3) have "m \<noteq> n" by auto
    with Cons.prems(1) Close have "toast_shown n t0 (step e w)"
      by (auto simp: toast_shown_def image_iff)
    moreover from Cons.prems Close have "now (step e w) + elapsed es < t0 + 5300"
      by simp
    ultimately show ?thesis
      using Cons.prems(3) by (simp add: Cons.IH)
  qed
qed

lemma toast_shown_start:
  assumes "timers_known w"
  shows "toast_shown (next_node w) (now w) (showToast msg ty w)"
proof -
  from assms have "\<forall>d t. (d, t) \<in> set (timeouts w) \<longrightarrow> task_node t \<noteq> next_node w"
    by (fastforce simp: timers_known_def)
  then have "\<forall>d. (d, Remove (next_node w)) \<notin> set (timeouts w)"
    and "\<forall>d. (d, FadeOut (next_node w)) \<notin> set (timeouts w)"
    by fastforce+
  then show ?thesis
    by (simp add: toast_shown_def showToast_toasts_timeouts showToast_frame)
qed

text \<open>
  Claim C10.  On any page reached from a page load, the toast that \<^verbatim>\<open>showToast\<close> creates is
  in the page at once; it stays there for as long as less than 5300 ms have elapsed and its
  close button has not been clicked; and once 5300 ms (5000 ms and the 300 ms of the
  fade-out) have elapsed it is not in the page, for every message and type and every
  sequence of events in between, with or without a click.
\<close>

theorem showToast_removed_after_delay:
  "let w = run es0 (page_load pathname texts); n = next_node w; w1 = showToast msg ty w in
     n \<in> node ` set (toasts w1)
   \<and> (elapsed es < 5300 \<and> Close n \<notin> set es \<longrightarrow> n \<in> node ` set (toasts (run es w1)))
   \<and> (5300 \<le> elapsed es \<longrightarrow> n \<notin> node ` set (toasts (run es w1)))"
proof -
  let ?w = "run es0 (page_load pathname texts)"
  let ?n = "next_node ?w"
  let ?w1 = "showToast msg ty ?w"
  have k: "timers_known ?w"
    by (rule timers_known_run) (rule timers_known_page_load)
  have n: "now (run es ?w1) = now ?w + elapsed es" "now ?w1 = now ?w"
    by (simp_all add: now_run showToast_frame)
  have a: "?n \<in> node ` set (toasts ?w1)"
    by (simp add: showToast_toasts_timeouts)
  have b: "elapsed es < 5300 \<and> Close ?n \<notin> set es \<longrightarrow> ?n \<in> node ` set (toasts (run es ?w1))"
  proof
    assume "elapsed es < 5300 \<and> Close ?n \<notin> set es"
    with toast_shown_run [OF toast_shown_start [OF k], of msg ty es] n(2)
    show "?n \<in> node ` set (toasts (run es ?w1))"
      by (simp add: toast_shown_def)
  qed
  have c: "5300 \<le> elapsed es \<longrightarrow> ?n \<notin> node ` set (toasts (run es ?w1))"
    using toast_life_end [OF toast_life_run [OF toast_life_showToast], of ?w es msg ty] n(1)
    by simp
  from a b c show ?thesis
    by (simp add: Let_def)
qed


theorem showToast_removed_after_delay_witness:
  "next_node (page_load ''/login'' (map_of []))
     \<in> node ` set (toasts (run [Elapse 5299] (showToast ''Saved'' (Some ''success'')
                                                 (page_load ''/login'' (map_of [])))))
   \<and> next_node (page_load ''/login'' (map_of []))
     \<notin> node ` set (toasts (run [Elapse 5300] (showToast ''Saved'' (Some ''success'')
                                                 (page_load ''/login'' (map_of [])))))"
  using showToast_removed_after_delay
          [of "[]" "''/login''" "map_of []" "''Saved''" "Some ''success''" "[Elapse 5299]"]
        showToast_removed_after_delay
          [of "[]" "''/login''" "map_of []" "''Saved''" "Some ''success''" "[Elapse 5300]"]
  by (simp add: Let_def)

section \<open>Properties of the request body\<close>

lemma digit_char:
  "d < 10 \<Longrightarrow> is_digit (digit_char d) \<and> digit_val (digit_char d) = d
                \<and> (digit_char d = CHR ''0'') = (d = 0)"
proof -
  have "list_all (\<lambda>d. is_digit (digit_char d) \<and> digit_val (digit_char d) = d
                      \<and> (digit_char d = CHR ''0'') = (d = 0)) [0..<10]"
    by code_simp
  then show "d < 10 \<Longrightarrow> is_digit (digit_char d) \<and> digit_val (digit_char d) = d
                \<and> (digit_char d = CHR ''0'') = (d = 0)"
    by (simp add: list_all_iff)
qed














































end
